theory Spec2Isabelle
  imports Main "HOL-Library.AList"
begin

section \<open>Data model\<close>

text \<open>
  The program (\<^verbatim>\<open>app_bfs.py\<close>) keeps a graph as a Python dictionary from node names to
  lists of node names. A dictionary is insertion ordered and its keys are unique; it is
  modelled as an association list read with \<^const>\<open>map_of\<close>, into which a new key is
  appended at the end and in which the value of an existing key is replaced in place
  (\<^const>\<open>AList.update\<close>). Node names are Python strings; a character is modelled as a
  \<^typ>\<open>char\<close>, read as the code point of the same number, so the model covers the texts
  whose code points are below 256.
\<close>

type_synonym nodo = string
type_synonym grafo = "(nodo \<times> nodo list) list"
type_synonym camino = "nodo list"
type_synonym cola = "(nodo \<times> camino) list"
type_synonym resultado = "camino option \<times> string option"

text \<open>The only exception the modelled statements can raise: subscripting a missing key.\<close>

datatype error = KeyError nodo

text \<open>\<^verbatim>\<open>n in grafo\<close>\<close>

definition en_grafo :: "nodo \<Rightarrow> grafo \<Rightarrow> bool" where
  "en_grafo n g = (map_of g n \<noteq> None)"

text \<open>\<^verbatim>\<open>grafo.get(n, [])\<close>\<close>

definition obtener :: "grafo \<Rightarrow> nodo \<Rightarrow> nodo list" where
  "obtener g n = (case map_of g n of None \<Rightarrow> [] | Some vs \<Rightarrow> vs)"

section \<open>Graph builder: \<^verbatim>\<open>parsear_entrada_a_grafo\<close>\<close>

text \<open>
  The class \<^verbatim>\<open>\w\<close> of a \<^verbatim>\<open>str\<close> pattern: the alphanumeric characters and the
  underscore. Below 256 these are the digits, the ASCII letters, the underscore, and the
  letters and numeric characters of Latin-1 (170, 178, 179, 181, 185, 186, 188 to 190,
  192 to 214, 216 to 246 and 248 to 255).
\<close>

definition es_palabra :: "char \<Rightarrow> bool" where
  "es_palabra c =
     (let k = (of_char c :: nat) in
        (48 \<le> k \<and> k \<le> 57) \<or> (65 \<le> k \<and> k \<le> 90) \<or> k = 95 \<or> (97 \<le> k \<and> k \<le> 122)
      \<or> k = 170 \<or> k = 178 \<or> k = 179 \<or> k = 181 \<or> k = 185 \<or> k = 186
      \<or> (188 \<le> k \<and> k \<le> 190) \<or> (192 \<le> k \<and> k \<le> 214) \<or> (216 \<le> k \<and> k \<le> 246)
      \<or> (248 \<le> k \<and> k \<le> 255))"

text \<open>
  The characters that \<^verbatim>\<open>str.strip()\<close> removes, those for which \<^verbatim>\<open>str.isspace\<close>
  holds: below 256 the code points 9 to 13, 28 to 32, 133 and 160.
\<close>

definition es_espacio :: "char \<Rightarrow> bool" where
  "es_espacio c =
     (let k = (of_char c :: nat) in
        (9 \<le> k \<and> k \<le> 13) \<or> (28 \<le> k \<and> k \<le> 32) \<or> k = 133 \<or> k = 160)"

text \<open>\<^verbatim>\<open>s.strip()\<close>: the leading and the trailing whitespace are removed.\<close>

definition strip :: "string \<Rightarrow> string" where
  "strip s = rev (dropWhile es_espacio (rev (dropWhile es_espacio s)))"

text \<open>
  \<^verbatim>\<open>s.split('\n')\<close>: the pieces between the line feeds; the empty string gives one empty
  piece. The result is never empty, so the first branch of the \<open>case\<close> is never taken.
\<close>

fun split_nl :: "string \<Rightarrow> string list" where
  "split_nl [] = [[]]"
| "split_nl (c # cs) =
     (if c = CHR 0x0A then [] # split_nl cs
      else (case split_nl cs of [] \<Rightarrow> [[c]] | l # ls \<Rightarrow> (c # l) # ls))"

text \<open>
  \<^verbatim>\<open>re.findall(r'[\w]+', s)\<close>: the matches from left to right, without overlap. A match
  starts at the first word character found and, the repetition being greedy, takes every
  word character that follows; the scan goes on after the match.
\<close>

function findall_w :: "string \<Rightarrow> string list" where
  "findall_w [] = []"
| "findall_w (c # cs) =
     (if es_palabra c
      then takeWhile es_palabra (c # cs) # findall_w (dropWhile es_palabra cs)
      else findall_w cs)"
  by pat_completeness auto
termination
  by (relation "measure length") (auto simp: less_Suc_eq_le length_dropWhile_le)

text \<open>
  Lines 26 to 29, once for each node of the edge:
  \<^verbatim>\<open>if nodo not in grafo: grafo[nodo] = []\<close>
\<close>

definition asegurar_clave :: "grafo \<Rightarrow> nodo \<Rightarrow> grafo" where
  "asegurar_clave grafo nodo =
     (if \<not> en_grafo nodo grafo then AList.update nodo [] grafo else grafo)"

text \<open>
  Lines 32 to 35, once for each direction of the edge:
  \<^verbatim>\<open>if vecino not in grafo[nodo]: grafo[nodo].append(vecino)\<close>.
  The subscript raises \<^verbatim>\<open>KeyError\<close> when the key is missing.
\<close>

definition conectar :: "grafo \<Rightarrow> nodo \<Rightarrow> nodo \<Rightarrow> error + grafo" where
  "conectar grafo nodo vecino =
     (case map_of grafo nodo of
        None \<Rightarrow> Inl (KeyError nodo)
      | Some vecinos \<Rightarrow>
          if vecino \<notin> set vecinos
          then Inr (AList.update nodo (vecinos @ [vecino]) grafo)
          else Inr grafo)"

text \<open>
  Lines 26 to 35, the body of \<^verbatim>\<open>if len(nodos) == 2\<close>: both keys are ensured, then
  \<^verbatim>\<open>nodo2\<close> is added to the list of \<^verbatim>\<open>nodo1\<close> and \<^verbatim>\<open>nodo1\<close> to the list of \<^verbatim>\<open>nodo2\<close>.
\<close>

definition agregar_arista :: "grafo \<Rightarrow> nodo \<Rightarrow> nodo \<Rightarrow> error + grafo" where
  "agregar_arista grafo nodo1 nodo2 =
     (case conectar (asegurar_clave (asegurar_clave grafo nodo1) nodo2) nodo1 nodo2 of
        Inl e \<Rightarrow> Inl e
      | Inr grafo' \<Rightarrow> conectar grafo' nodo2 nodo1)"

text \<open>
  Lines 19 to 35, the body of \<^verbatim>\<open>for linea in lineas\<close>:
  \<^verbatim>\<open>nodos = re.findall(r'[\w]+', linea.strip())\<close>, then the edge is added when
  \<^verbatim>\<open>len(nodos) == 2\<close>, with \<^verbatim>\<open>nodo1, nodo2 = nodos\<close>.
\<close>

definition procesar_linea :: "grafo \<Rightarrow> string \<Rightarrow> error + grafo" where
  "procesar_linea grafo linea =
     (let nodos = findall_w (strip linea)
      in if length nodos = 2 then agregar_arista grafo (nodos ! 0) (nodos ! 1)
         else Inr grafo)"

text \<open>The loop \<^verbatim>\<open>for linea in lineas\<close>; an exception ends it.\<close>

fun bucle_lineas :: "grafo \<Rightarrow> string list \<Rightarrow> error + grafo" where
  "bucle_lineas grafo [] = Inr grafo"
| "bucle_lineas grafo (linea # lineas) =
     (case procesar_linea grafo linea of
        Inl e \<Rightarrow> Inl e
      | Inr grafo' \<Rightarrow> bucle_lineas grafo' lineas)"

text \<open>
  \<^verbatim>\<open>grafo = {}\<close>, \<^verbatim>\<open>lineas = texto_conexiones.strip().split('\n')\<close>, the loop, and
  \<^verbatim>\<open>return grafo\<close>.
\<close>

definition parsear_entrada_a_grafo :: "string \<Rightarrow> error + grafo" where
  "parsear_entrada_a_grafo texto_conexiones =
     bucle_lineas [] (split_nl (strip texto_conexiones))"

text \<open>
  The default text of the program, lines 135 to 147: a triple-quoted string that
  starts and ends with a line feed.
\<close>

definition DEFAULT_CONNECTIONS :: string where
  "DEFAULT_CONNECTIONS =
     [CHR 0x0A] @ ''A B'' @ [CHR 0x0A] @ ''B C'' @ [CHR 0x0A] @ ''C D'' @ [CHR 0x0A]
     @ ''D E'' @ [CHR 0x0A] @ ''E F'' @ [CHR 0x0A] @ ''A G'' @ [CHR 0x0A] @ ''G H''
     @ [CHR 0x0A] @ ''H I'' @ [CHR 0x0A] @ ''I J'' @ [CHR 0x0A] @ ''J F'' @ [CHR 0x0A]
     @ ''C G'' @ [CHR 0x0A]"

section \<open>Path finder: \<^verbatim>\<open>bfs_grados_de_separacion\<close>\<close>

text \<open>The two messages the function returns in the second component.\<close>

definition msg_nodo_inexistente :: string where
  "msg_nodo_inexistente =
     ''Error: El nodo de inicio o destino no existe en el grafo definido.''"

definition msg_sin_conexion :: string where
  "msg_sin_conexion =
     ''No hay conexi'' @ [CHR 0xF3] @ ''n posible entre los dos nodos seleccionados.''"

text \<open>
  The inner loop \<^verbatim>\<open>for vecino in grafo.get(nodo_actual, [])\<close>: each neighbour that is
  not yet visited is marked and enqueued with the path extended by it. The state is
  the pair of \<^verbatim>\<open>visitados\<close> and \<^verbatim>\<open>cola\<close>.
\<close>

fun expandir :: "camino \<Rightarrow> nodo list \<Rightarrow> nodo set \<times> cola \<Rightarrow> nodo set \<times> cola" where
  "expandir camino_actual [] (visitados, cola) = (visitados, cola)"
| "expandir camino_actual (vecino # resto) (visitados, cola) =
     (if vecino \<notin> visitados
      then expandir camino_actual resto
             (insert vecino visitados, cola @ [(vecino, camino_actual @ [vecino])])
      else expandir camino_actual resto (visitados, cola))"

text \<open>
  Every node that occurs in some neighbour list. The search only ever visits the source
  and such nodes, which bounds the number of its steps.
\<close>

definition mencionados :: "grafo \<Rightarrow> nodo set" where
  "mencionados g = (\<Union>e \<in> set g. set (snd e))"

lemma finite_mencionados: "finite (mencionados g)"
  by (simp add: mencionados_def)

lemma obtener_mencionados: "set (obtener g n) \<subseteq> mencionados g"
proof (cases "map_of g n")
  case None
  then show ?thesis by (simp add: obtener_def)
next
  case (Some vs)
  then have "(n, vs) \<in> set g" by (rule map_of_SomeD)
  with Some show ?thesis by (force simp: obtener_def mencionados_def)
qed

lemma expandir_medida:
  assumes "finite N" and "set vs \<subseteq> N"
  shows "card (N - fst (expandir p vs (vis, q))) + length (snd (expandir p vs (vis, q)))
         = card (N - vis) + length q"
  using assms(2)
proof (induction vs arbitrary: vis q)
  case Nil
  then show ?case by simp
next
  case (Cons v vs)
  show ?case
  proof (cases "v \<in> vis")
    case True
    with Cons show ?thesis by simp
  next
    case False
    from Cons.prems have vN: "v \<in> N" and sub: "set vs \<subseteq> N" by auto
    from False vN have mem: "v \<in> N - vis" by simp
    have fin: "finite (N - vis)" using assms(1) by simp
    have "card (N - vis) = Suc (card (N - vis - {v}))"
      by (rule card.remove [OF fin mem])
    moreover have "N - insert v vis = N - vis - {v}" by auto
    ultimately have c: "card (N - vis) = Suc (card (N - insert v vis))" by simp
    from False Cons.IH [OF sub, of "insert v vis" "q @ [(v, p @ [v])]"] c
    show ?thesis by simp
  qed
qed

text \<open>
  The loop \<^verbatim>\<open>while cola\<close>: the head of the queue is removed; if it is the target its
  path is returned with no message, otherwise its neighbours are expanded. When the
  queue is empty the loop ends and the function returns no path and the message.
\<close>

function bfs_bucle :: "grafo \<Rightarrow> nodo \<Rightarrow> cola \<Rightarrow> nodo set \<Rightarrow> resultado" where
  "bfs_bucle g destino [] visitados = (None, Some msg_sin_conexion)"
| "bfs_bucle g destino ((nodo_actual, camino_actual) # cola) visitados =
     (if nodo_actual = destino then (Some camino_actual, None)
      else bfs_bucle g destino
             (snd (expandir camino_actual (obtener g nodo_actual) (visitados, cola)))
             (fst (expandir camino_actual (obtener g nodo_actual) (visitados, cola))))"
  by pat_completeness auto
termination
proof (relation "measure (\<lambda>(g, destino, q, vis). card (mencionados g - vis) + length q)")
  show "wf (measure (\<lambda>(g, destino, q, vis). card (mencionados g - vis) + length q))"
    by simp
next
  fix g :: grafo and destino :: nodo and nodo_actual camino_actual q vis
  show "((g, destino,
          snd (expandir camino_actual (obtener g nodo_actual) (vis, q)),
          fst (expandir camino_actual (obtener g nodo_actual) (vis, q))),
         (g, destino, (nodo_actual, camino_actual) # q, vis))
        \<in> measure (\<lambda>(g, destino, q, vis). card (mencionados g - vis) + length q)"
  proof -
    have "card (mencionados g - fst (expandir camino_actual (obtener g nodo_actual) (vis, q)))
          + length (snd (expandir camino_actual (obtener g nodo_actual) (vis, q)))
          = card (mencionados g - vis) + length q"
      by (rule expandir_medida [OF finite_mencionados obtener_mencionados])
    then show ?thesis by simp
  qed
qed

definition bfs_grados_de_separacion :: "grafo \<Rightarrow> nodo \<Rightarrow> nodo \<Rightarrow> resultado" where
  "bfs_grados_de_separacion g inicio destino =
     (if \<not> en_grafo inicio g \<or> \<not> en_grafo destino g
      then (None, Some msg_nodo_inexistente)
      else bfs_bucle g destino [(inicio, [inicio])] {inicio})"

section \<open>Notions used to state the properties\<close>

subsection \<open>Walks and distances\<close>

text \<open>
  A walk is a non-empty list of nodes in which each node is followed by one of its
  neighbours, as \<^verbatim>\<open>grafo.get\<close> reads them (a node that is not a key has none).
\<close>

fun es_camino :: "grafo \<Rightarrow> camino \<Rightarrow> bool" where
  "es_camino g [] = False"
| "es_camino g [x] = True"
| "es_camino g (x # y # r) = (y \<in> set (obtener g x) \<and> es_camino g (y # r))"

definition camino_entre :: "grafo \<Rightarrow> nodo \<Rightarrow> nodo \<Rightarrow> camino \<Rightarrow> bool" where
  "camino_entre g a b p = (es_camino g p \<and> hd p = a \<and> last p = b)"

text \<open>The distance: the least number of edges of a walk from \<open>a\<close> to \<open>b\<close>.\<close>

definition distancia :: "grafo \<Rightarrow> nodo \<Rightarrow> nodo \<Rightarrow> nat" where
  "distancia g a b = (LEAST k. \<exists>r. camino_entre g a b r \<and> length r = Suc k)"

subsection \<open>The invariant of the search loop\<close>

text \<open>
  The processed nodes are the visited ones that are no longer in the queue. The invariant
  says: the queue holds distinct visited nodes, each with a shortest walk from the source;
  the lengths of these walks are sorted and differ by at most one; the neighbours of a
  processed node are visited and the target is not processed; every node that a walk no
  longer than the head's reaches is visited.
\<close>

definition procesados :: "cola \<Rightarrow> nodo set \<Rightarrow> nodo set" where
  "procesados q vis = vis - fst ` set q"

definition inv_bfs :: "grafo \<Rightarrow> nodo \<Rightarrow> nodo \<Rightarrow> cola \<Rightarrow> nodo set \<Rightarrow> bool" where
  "inv_bfs g s t q vis \<longleftrightarrow>
     s \<in> vis \<and>
     distinct (map fst q) \<and>
     (\<forall>e \<in> set q. fst e \<in> vis \<and> camino_entre g s (fst e) (snd e)
        \<and> (\<forall>r. camino_entre g s (fst e) r \<longrightarrow> length (snd e) \<le> length r)) \<and>
     sorted (map (\<lambda>e. length (snd e)) q) \<and>
     (\<forall>e \<in> set q. length (snd e) \<le> Suc (length (snd (hd q)))) \<and>
     (\<forall>u \<in> procesados q vis. u \<noteq> t \<and> set (obtener g u) \<subseteq> vis) \<and>
     (q \<noteq> [] \<longrightarrow>
        (\<forall>u r. camino_entre g s u r \<and> length r \<le> length (snd (hd q)) \<longrightarrow> u \<in> vis))"

subsection \<open>Edges, keys and tokens\<close>

text \<open>The edges and the keys of a graph, as the dictionary gives them.\<close>

definition aristas :: "grafo \<Rightarrow> (nodo \<times> nodo) set" where
  "aristas g = {(u, v). v \<in> set (obtener g u)}"

definition claves :: "grafo \<Rightarrow> nodo set" where
  "claves g = {k. en_grafo k g}"

text \<open>
  The edges and the nodes that a list of lines describes: a line counts when it has
  exactly two tokens, and it gives the edge in both directions.
\<close>

definition aristas_de_lineas :: "string list \<Rightarrow> (nodo \<times> nodo) set" where
  "aristas_de_lineas ls =
     {(a, b). \<exists>l \<in> set ls. findall_w l = [a, b] \<or> findall_w l = [b, a]}"

definition nodos_de_lineas :: "string list \<Rightarrow> nodo set" where
  "nodos_de_lineas ls =
     {a. \<exists>l \<in> set ls. \<exists>b. findall_w l = [a, b] \<or> findall_w l = [b, a]}"

text \<open>
  The tokens of a line as the specification words them, the maximal runs of word
  characters: the line is some characters that are not word characters, then a non-empty
  run of word characters that ends at the end of the line or before a character that is
  not a word character, then the rest of the line with the runs of the rest.
\<close>

inductive rachas_maximales :: "string \<Rightarrow> string list \<Rightarrow> bool" where
  sin_mas: "\<forall>c \<in> set s. \<not> es_palabra c \<Longrightarrow> rachas_maximales s []"
| racha: "\<lbrakk>\<forall>c \<in> set s. \<not> es_palabra c; t \<noteq> []; \<forall>c \<in> set t. es_palabra c;
           r = [] \<or> \<not> es_palabra (hd r); rachas_maximales r ts\<rbrakk>
          \<Longrightarrow> rachas_maximales (s @ t @ r) (t # ts)"

definition es_token :: "string \<Rightarrow> bool" where
  "es_token t \<longleftrightarrow> t \<noteq> [] \<and> (\<forall>c \<in> set t. es_palabra c)"

subsection \<open>Writing a graph as text\<close>

text \<open>
  Modelled from the spec: the program has no function that writes a graph back as text;
  the specification speaks of the graph rendered back to the same textual form, one
  edge per line, two tokens per line. Each key gives one line for each of its neighbours,
  the two names separated by a blank, and the lines are joined by line feeds.
\<close>

definition lineas_de_grafo :: "grafo \<Rightarrow> string list" where
  "lineas_de_grafo g = concat (map (\<lambda>(u, vs). map (\<lambda>v. u @ '' '' @ v) vs) g)"

fun unir_lineas :: "string list \<Rightarrow> string" where
  "unir_lineas [] = []"
| "unir_lineas [l] = l"
| "unir_lineas (l # l' # ls) = l @ [CHR 0x0A] @ unir_lineas (l' # ls)"

definition renderizar :: "grafo \<Rightarrow> string" where
  "renderizar g = unir_lineas (lineas_de_grafo g)"

subsection \<open>Example graphs\<close>

text \<open>A small graph with two components.\<close>

definition g_ej :: grafo where
  "g_ej = [(''A'', [''B'', ''C'']), (''B'', [''A'', ''D'']), (''C'', [''A'', ''D'']),
           (''D'', [''B'', ''C'']), (''X'', [''Y'']), (''Y'', [''X''])]"

text \<open>A graph whose neighbour list mentions a node, \<open>Z\<close>, that is not a key.\<close>

definition g_colgante :: grafo where
  "g_colgante = [(''A'', [''Z'']), (''B'', [])]"

text \<open>The eleven lines of the scenario, joined by line feeds, and their graph.\<close>

definition texto_escenario :: string where
  "texto_escenario =
     ''A B'' @ [CHR 0x0A] @ ''B C'' @ [CHR 0x0A] @ ''C D'' @ [CHR 0x0A]
     @ ''D E'' @ [CHR 0x0A] @ ''E F'' @ [CHR 0x0A] @ ''A G'' @ [CHR 0x0A] @ ''G H''
     @ [CHR 0x0A] @ ''H I'' @ [CHR 0x0A] @ ''I J'' @ [CHR 0x0A] @ ''J F'' @ [CHR 0x0A]
     @ ''C G''"


definition g_escenario :: grafo where
  "g_escenario =
     [(''A'', [''B'', ''G'']), (''B'', [''A'', ''C'']), (''C'', [''B'', ''D'', ''G'']),
      (''D'', [''C'', ''E'']), (''E'', [''D'', ''F'']), (''F'', [''E'', ''J'']),
      (''G'', [''A'', ''H'', ''C'']), (''H'', [''G'', ''I'']), (''I'', [''H'', ''J'']),
      (''J'', [''I'', ''F''])]"

section \<open>Lemmas about walks and the search loop\<close>

lemma es_camino_no_vacio: "es_camino g p \<Longrightarrow> p \<noteq> []"
  by auto

lemma es_camino_snoc:
  "es_camino g (p @ [c]) \<longleftrightarrow> (p = [] \<or> (es_camino g p \<and> c \<in> set (obtener g (last p))))"
  by (induction g p rule: es_camino.induct) auto

lemma camino_entre_snoc:
  assumes "camino_entre g a b p" and "c \<in> set (obtener g b)"
  shows "camino_entre g a c (p @ [c])"
proof -
  from assms(1) have "p \<noteq> []" by (auto simp: camino_entre_def)
  with assms show ?thesis by (simp add: camino_entre_def es_camino_snoc)
qed

lemma camino_entre_ultimo:
  assumes "camino_entre g a c r" and "2 \<le> length r"
  shows "\<exists>r0 b. r = r0 @ [c] \<and> camino_entre g a b r0 \<and> c \<in> set (obtener g b)"
proof -
  from assms have ne: "r \<noteq> []" by auto
  define r0 where "r0 = butlast r"
  from assms(1) have "last r = c" by (simp add: camino_entre_def)
  with append_butlast_last_id [OF ne] have r: "r = r0 @ [c]"
    by (simp add: r0_def)
  from assms(2) r have r0: "r0 \<noteq> []" by auto
  from assms(1) have "es_camino g (r0 @ [c])" and "hd (r0 @ [c]) = a"
    unfolding r by (simp_all add: camino_entre_def)
  with r0 have "es_camino g r0" and "c \<in> set (obtener g (last r0))" and "hd r0 = a"
    by (simp_all add: es_camino_snoc)
  then have "camino_entre g a (last r0) r0" by (simp add: camino_entre_def)
  with r \<open>c \<in> set (obtener g (last r0))\<close> show ?thesis by blast
qed

lemma camino_cerrado:
  "es_camino g r \<Longrightarrow> hd r \<in> V \<Longrightarrow> \<forall>u\<in>V. set (obtener g u) \<subseteq> V \<Longrightarrow> set r \<subseteq> V"
  by (induction g r rule: es_camino.induct) auto

lemma expandir_caract:
  "\<exists>ns. expandir p vs (vis, q) = (vis \<union> set vs, q @ map (\<lambda>v. (v, p @ [v])) ns)
        \<and> distinct ns \<and> set ns = set vs - vis"
proof (induction vs arbitrary: vis q)
  case Nil
  show ?case by simp
next
  case (Cons v vs)
  show ?case
  proof (cases "v \<in> vis")
    case True
    from Cons.IH [of vis q] obtain ns where
      "expandir p vs (vis, q) = (vis \<union> set vs, q @ map (\<lambda>v. (v, p @ [v])) ns)"
      "distinct ns" "set ns = set vs - vis" by blast
    with True have "expandir p (v # vs) (vis, q)
        = (vis \<union> set (v # vs), q @ map (\<lambda>v. (v, p @ [v])) ns)
      \<and> distinct ns \<and> set ns = set (v # vs) - vis"
      by auto
    then show ?thesis by blast
  next
    case False
    from Cons.IH [of "insert v vis" "q @ [(v, p @ [v])]"] obtain ns where ns:
      "expandir p vs (insert v vis, q @ [(v, p @ [v])])
         = (insert v vis \<union> set vs, (q @ [(v, p @ [v])]) @ map (\<lambda>v. (v, p @ [v])) ns)"
      "distinct ns" "set ns = set vs - insert v vis" by blast
    with False have "expandir p (v # vs) (vis, q)
        = (vis \<union> set (v # vs), q @ map (\<lambda>v. (v, p @ [v])) (v # ns))
      \<and> distinct (v # ns) \<and> set (v # ns) = set (v # vs) - vis"
      by auto
    then show ?thesis by blast
  qed
qed

lemma sorted_map_const: "sorted (map (\<lambda>v. c :: nat) ns)"
  by (induction ns) auto

lemma inv_bfs_inicial: "inv_bfs g s t [(s, [s])] {s}"
proof -
  have "\<And>r. camino_entre g s s r \<Longrightarrow> Suc 0 \<le> length r"
  proof -
    fix r assume "camino_entre g s s r"
    then show "Suc 0 \<le> length r" by (cases r) (auto simp: camino_entre_def)
  qed
  moreover have "\<And>u r. camino_entre g s u r \<Longrightarrow> length r \<le> Suc 0 \<Longrightarrow> u = s"
  proof -
    fix u r assume "camino_entre g s u r" and "length r \<le> Suc 0"
    then show "u = s" by (cases r) (auto simp: camino_entre_def)
  qed
  ultimately show ?thesis
    by (auto simp: inv_bfs_def procesados_def camino_entre_def)
qed

lemma inv_bfs_paso:
  assumes inv: "inv_bfs g s t ((n, p) # q) vis" and nt: "n \<noteq> t"
  shows "inv_bfs g s t (snd (expandir p (obtener g n) (vis, q)))
                       (fst (expandir p (obtener g n) (vis, q)))"
proof -
  define vs where "vs = obtener g n"
  define L where "L = length p"
  obtain ns where E: "expandir p vs (vis, q) = (vis \<union> set vs, q @ map (\<lambda>v. (v, p @ [v])) ns)"
    and dns: "distinct ns" and sns: "set ns = set vs - vis"
    using expandir_caract by blast
  define q' where "q' = q @ map (\<lambda>v. (v, p @ [v])) ns"
  define vis' where "vis' = vis \<union> set vs"
  have mem_q': "\<And>e. e \<in> set q' \<longleftrightarrow> e \<in> set q \<or> (\<exists>v \<in> set ns. e = (v, p @ [v]))"
    by (auto simp: q'_def)
  from inv have a: "s \<in> vis" by (simp add: inv_bfs_def)
  from inv have b1: "n \<notin> fst ` set q" and b2: "distinct (map fst q)"
    by (simp_all add: inv_bfs_def)
  from inv have c0: "n \<in> vis" "camino_entre g s n p" by (simp_all add: inv_bfs_def)
  from inv have c1: "\<And>e. e \<in> set q \<Longrightarrow> fst e \<in> vis"
    and c2: "\<And>e. e \<in> set q \<Longrightarrow> camino_entre g s (fst e) (snd e)"
    and c3: "\<And>e r. e \<in> set q \<Longrightarrow> camino_entre g s (fst e) r \<Longrightarrow> length (snd e) \<le> length r"
    by (simp_all add: inv_bfs_def)
  from inv have d1: "\<And>e. e \<in> set q \<Longrightarrow> L \<le> length (snd e)"
    and d2: "sorted (map (\<lambda>e. length (snd e)) q)"
    by (simp_all add: inv_bfs_def L_def)
  from inv have e1: "\<And>e. e \<in> set q \<Longrightarrow> length (snd e) \<le> Suc L"
    by (simp add: inv_bfs_def L_def)
  from inv have f: "\<And>u. u \<in> vis \<Longrightarrow> u \<noteq> n \<Longrightarrow> u \<notin> fst ` set q
      \<Longrightarrow> u \<noteq> t \<and> set (obtener g u) \<subseteq> vis"
    by (simp add: inv_bfs_def procesados_def)
  from inv have h: "\<And>u r. camino_entre g s u r \<Longrightarrow> length r \<le> L \<Longrightarrow> u \<in> vis"
    by (auto simp: inv_bfs_def L_def)
  from c0(2) have Lpos: "1 \<le> L" by (cases p) (auto simp: L_def camino_entre_def)

  have rango: "\<And>e. e \<in> set q' \<Longrightarrow> L \<le> length (snd e) \<and> length (snd e) \<le> Suc L"
    using d1 e1 by (auto simp: mem_q' L_def)

  have i1: "s \<in> vis'" using a by (simp add: vis'_def)
  have i2: "distinct (map fst q')"
  proof -
    have "map fst q' = map fst q @ ns" by (simp add: q'_def comp_def)
    moreover have "set (map fst q) \<inter> set ns = {}" using c1 sns by auto
    ultimately show ?thesis using b2 dns by simp
  qed
  have i3: "\<forall>e \<in> set q'. fst e \<in> vis' \<and> camino_entre g s (fst e) (snd e)
        \<and> (\<forall>r. camino_entre g s (fst e) r \<longrightarrow> length (snd e) \<le> length r)"
  proof
    fix e assume "e \<in> set q'"
    then consider (viejo) "e \<in> set q" | (nuevo) v where "v \<in> set ns" "e = (v, p @ [v])"
      by (auto simp: mem_q')
    then show "fst e \<in> vis' \<and> camino_entre g s (fst e) (snd e)
        \<and> (\<forall>r. camino_entre g s (fst e) r \<longrightarrow> length (snd e) \<le> length r)"
    proof cases
      case viejo
      then show ?thesis using c1 c2 c3 by (simp add: vis'_def)
    next
      case nuevo
      from nuevo(1) sns have v: "v \<in> set (obtener g n)" "v \<notin> vis" by (auto simp: vs_def)
      have "camino_entre g s v (p @ [v])" by (rule camino_entre_snoc [OF c0(2) v(1)])
      moreover have "\<forall>r. camino_entre g s v r \<longrightarrow> length (p @ [v]) \<le> length r"
      proof (intro allI impI)
        fix r assume r: "camino_entre g s v r"
        show "length (p @ [v]) \<le> length r"
        proof (rule ccontr)
          assume "\<not> length (p @ [v]) \<le> length r"
          then have "length r \<le> L" by (simp add: L_def)
          from h [OF r this] v(2) show False by simp
        qed
      qed
      ultimately show ?thesis using nuevo v by (simp add: vis'_def vs_def)
    qed
  qed
  have i4: "sorted (map (\<lambda>e. length (snd e)) q')"
  proof -
    have "map (\<lambda>e. length (snd e)) q'
          = map (\<lambda>e. length (snd e)) q @ map (\<lambda>v. Suc L) ns"
      by (simp add: q'_def comp_def L_def)
    then show ?thesis using d2 e1 by (auto simp: sorted_append sorted_map_const)
  qed
  have cabeza: "\<And>e. e \<in> set q' \<Longrightarrow> length (snd (hd q')) \<le> length (snd e)"
  proof -
    fix e assume e: "e \<in> set q'"
    then obtain x xs where x: "q' = x # xs" by (cases q') auto
    with i4 e show "length (snd (hd q')) \<le> length (snd e)" by auto
  qed
  have i5: "\<forall>e \<in> set q'. length (snd e) \<le> Suc (length (snd (hd q')))"
  proof
    fix e assume e: "e \<in> set q'"
    then have "q' \<noteq> []" by auto
    then have "hd q' \<in> set q'" by simp
    from rango [OF this] rango [OF e] show "length (snd e) \<le> Suc (length (snd (hd q')))"
      by simp
  qed
  have nodos_q': "fst ` set q' = fst ` set q \<union> set ns"
    by (force simp: q'_def image_Un)
  have proc: "procesados q' vis' = insert n (procesados ((n, p) # q) vis)"
  proof -
    have "fst ` set q \<subseteq> vis" using c1 by auto
    then show ?thesis
      unfolding procesados_def nodos_q' vis'_def sns using c0(1) b1 by auto
  qed
  have i6: "\<forall>u \<in> procesados q' vis'. u \<noteq> t \<and> set (obtener g u) \<subseteq> vis'"
  proof
    fix u assume "u \<in> procesados q' vis'"
    then have "u = n \<or> (u \<in> vis \<and> u \<noteq> n \<and> u \<notin> fst ` set q)"
      unfolding proc by (auto simp: procesados_def)
    then show "u \<noteq> t \<and> set (obtener g u) \<subseteq> vis'"
    proof
      assume "u = n"
      then show ?thesis using nt by (simp add: vis'_def vs_def)
    next
      assume "u \<in> vis \<and> u \<noteq> n \<and> u \<notin> fst ` set q"
      then have "u \<noteq> t \<and> set (obtener g u) \<subseteq> vis" using f by blast
      then show ?thesis by (auto simp: vis'_def)
    qed
  qed
  have bajo: "\<And>u r. q' \<noteq> [] \<Longrightarrow> camino_entre g s u r \<Longrightarrow> length r < length (snd (hd q'))
      \<Longrightarrow> u \<in> procesados q' vis'"
  proof -
    fix u r assume ne: "q' \<noteq> []" and r: "camino_entre g s u r"
      and lt: "length r < length (snd (hd q'))"
    from ne have "hd q' \<in> set q'" by simp
    from rango [OF this] lt have "length r \<le> L" by simp
    from h [OF r this] have uv: "u \<in> vis" .
    have "u \<notin> fst ` set q'"
    proof
      assume "u \<in> fst ` set q'"
      then obtain e where e: "e \<in> set q'" "fst e = u" by auto
      with i3 r have "length (snd e) \<le> length r" by blast
      with cabeza [OF e(1)] lt show False by simp
    qed
    with uv show "u \<in> procesados q' vis'" by (simp add: procesados_def vis'_def)
  qed
  have i7: "q' \<noteq> [] \<longrightarrow>
        (\<forall>u r. camino_entre g s u r \<and> length r \<le> length (snd (hd q')) \<longrightarrow> u \<in> vis')"
  proof (intro impI allI, elim conjE)
    fix u r assume ne: "q' \<noteq> []" and r: "camino_entre g s u r"
      and le: "length r \<le> length (snd (hd q'))"
    from ne have "hd q' \<in> set q'" by simp
    from rango [OF this] have hdr: "L \<le> length (snd (hd q'))" "length (snd (hd q')) \<le> Suc L"
      by simp_all
    show "u \<in> vis'"
    proof (cases "length r \<le> L")
      case True
      from h [OF r True] show ?thesis by (simp add: vis'_def)
    next
      case False
      with le hdr have len: "length r = Suc L" "length (snd (hd q')) = Suc L" by simp_all
      with Lpos have "2 \<le> length r" by simp
      from camino_entre_ultimo [OF r this] obtain r0 w where
        r0: "r = r0 @ [u]" "camino_entre g s w r0" "u \<in> set (obtener g w)" by blast
      from r0(1) len have "length r0 < length (snd (hd q'))" by simp
      from bajo [OF ne r0(2) this] have "w \<in> procesados q' vis'" .
      with i6 r0(3) show ?thesis by blast
    qed
  qed
  have "inv_bfs g s t q' vis'"
    unfolding inv_bfs_def using i1 i2 i3 i4 i5 i6 i7 by blast
  moreover have "expandir p (obtener g n) (vis, q) = (vis', q')"
    using E by (simp add: vs_def q'_def vis'_def)
  ultimately show ?thesis by simp
qed

lemma bfs_bucle_correcto:
  "inv_bfs g s t q vis \<Longrightarrow>
     (\<exists>p. bfs_bucle g t q vis = (Some p, None) \<and> camino_entre g s t p
          \<and> (\<forall>r. camino_entre g s t r \<longrightarrow> length p \<le> length r))
   \<or> (bfs_bucle g t q vis = (None, Some msg_sin_conexion) \<and> (\<forall>r. \<not> camino_entre g s t r))"
proof (induction g t q vis rule: bfs_bucle.induct)
  case (1 g destino visitados)
  from 1 have s: "s \<in> visitados"
    and cerrado: "\<forall>u \<in> visitados. set (obtener g u) \<subseteq> visitados"
    and fuera: "destino \<notin> visitados"
    by (auto simp: inv_bfs_def procesados_def)
  have "\<not> camino_entre g s destino r" for r
  proof
    assume r: "camino_entre g s destino r"
    then have "es_camino g r" "hd r \<in> visitados" using s by (simp_all add: camino_entre_def)
    from camino_cerrado [OF this cerrado] have "set r \<subseteq> visitados" .
    moreover from r have "r \<noteq> []" "last r = destino" by (auto simp: camino_entre_def)
    ultimately show False using fuera last_in_set by fastforce
  qed
  then show ?case by simp
next
  case (2 g destino nodo_actual camino_actual cola visitados)
  show ?case
  proof (cases "nodo_actual = destino")
    case True
    with "2.prems" show ?thesis by (simp add: inv_bfs_def)
  next
    case False
    from inv_bfs_paso [OF "2.prems" False] "2.IH" [OF False] False
    show ?thesis by simp
  qed
qed

lemma bfs_bucle_forma:
  "\<forall>e \<in> set q. snd e \<noteq> [] \<Longrightarrow>
     (\<exists>p. p \<noteq> [] \<and> bfs_bucle g t q vis = (Some p, None))
   \<or> bfs_bucle g t q vis = (None, Some msg_sin_conexion)"
proof (induction g t q vis rule: bfs_bucle.induct)
  case (1 g destino visitados)
  show ?case by simp
next
  case (2 g destino nodo_actual camino_actual cola visitados)
  show ?case
  proof (cases "nodo_actual = destino")
    case True
    with "2.prems" show ?thesis by simp
  next
    case False
    obtain ns where
      "expandir camino_actual (obtener g nodo_actual) (visitados, cola)
       = (visitados \<union> set (obtener g nodo_actual),
          cola @ map (\<lambda>v. (v, camino_actual @ [v])) ns)"
      using expandir_caract by blast
    with "2.prems" have
      "\<forall>e \<in> set (snd (expandir camino_actual (obtener g nodo_actual) (visitados, cola))).
         snd e \<noteq> []"
      by auto
    from "2.IH" [OF False this] False show ?thesis by simp
  qed
qed

lemma mensajes_distintos: "msg_sin_conexion \<noteq> msg_nodo_inexistente"
  by (simp add: msg_sin_conexion_def msg_nodo_inexistente_def)

lemma bfs_desde_inicio:
  "en_grafo s g \<Longrightarrow> en_grafo t g \<Longrightarrow>
   bfs_grados_de_separacion g s t = bfs_bucle g t [(s, [s])] {s}"
  by (simp add: bfs_grados_de_separacion_def)

lemma bfs_inicial_correcto:
  "(\<exists>p. bfs_bucle g t [(s, [s])] {s} = (Some p, None) \<and> camino_entre g s t p
          \<and> (\<forall>r. camino_entre g s t r \<longrightarrow> length p \<le> length r))
   \<or> (bfs_bucle g t [(s, [s])] {s} = (None, Some msg_sin_conexion)
      \<and> (\<forall>r. \<not> camino_entre g s t r))"
  by (rule bfs_bucle_correcto [OF inv_bfs_inicial])

section \<open>Lemmas about the graph builder\<close>

lemma espacio_no_palabra: "es_espacio c \<Longrightarrow> \<not> es_palabra c"
  by (auto simp: es_espacio_def es_palabra_def Let_def)

lemma en_grafo_update: "en_grafo x (AList.update k v g) \<longleftrightarrow> x = k \<or> en_grafo x g"
  by (simp add: en_grafo_def update_conv')

lemma obtener_update: "obtener (AList.update k v g) x = (if x = k then v else obtener g x)"
  by (simp add: obtener_def update_conv')

lemma claves_asegurar: "claves (asegurar_clave g k) = insert k (claves g)"
  by (auto simp: claves_def asegurar_clave_def en_grafo_update)

lemma en_aristas: "(u, v) \<in> aristas g \<longleftrightarrow> v \<in> set (obtener g u)"
  by (simp add: aristas_def)

lemma obtener_sin_clave: "\<not> en_grafo k g \<Longrightarrow> obtener g k = []"
  by (simp add: en_grafo_def obtener_def)

lemma obtener_asegurar: "obtener (asegurar_clave g k) x = obtener g x"
  by (simp add: asegurar_clave_def obtener_update obtener_sin_clave)

lemma aristas_asegurar: "aristas (asegurar_clave g k) = aristas g"
  by (simp add: aristas_def obtener_asegurar)

lemma conectar_efecto:
  assumes "k \<in> claves g"
  shows "\<exists>g'. conectar g k v = Inr g' \<and> claves g' = claves g
            \<and> aristas g' = insert (k, v) (aristas g)"
proof -
  from assms obtain vs where vs: "map_of g k = Some vs"
    by (auto simp: claves_def en_grafo_def)
  show ?thesis
  proof (cases "v \<in> set vs")
    case True
    with vs have "conectar g k v = Inr g" by (simp add: conectar_def)
    moreover from True vs have "(k, v) \<in> aristas g" by (simp add: aristas_def obtener_def)
    ultimately show ?thesis by (auto simp: insert_absorb)
  next
    case False
    let ?g' = "AList.update k (vs @ [v]) g"
    from False vs have "conectar g k v = Inr ?g'" by (simp add: conectar_def)
    moreover have "claves ?g' = claves g"
      using assms by (auto simp: claves_def en_grafo_update)
    moreover have "aristas ?g' = insert (k, v) (aristas g)"
    proof -
      from vs have "obtener g k = vs" by (simp add: obtener_def)
      then have "(x, y) \<in> aristas ?g' \<longleftrightarrow> (x, y) \<in> insert (k, v) (aristas g)" for x y
        by (auto simp: en_aristas obtener_update)
      then show ?thesis by auto
    qed
    ultimately show ?thesis by blast
  qed
qed

lemma agregar_arista_efecto:
  "\<exists>g'. agregar_arista g a b = Inr g' \<and> claves g' = claves g \<union> {a, b}
        \<and> aristas g' = aristas g \<union> {(a, b), (b, a)}"
proof -
  let ?g2 = "asegurar_clave (asegurar_clave g a) b"
  have k2: "claves ?g2 = claves g \<union> {a, b}" by (auto simp: claves_asegurar)
  have a2: "aristas ?g2 = aristas g" by (simp add: aristas_asegurar)
  from k2 have "a \<in> claves ?g2" by simp
  from conectar_efecto [OF this, of b] obtain g3 where
    g3: "conectar ?g2 a b = Inr g3" "claves g3 = claves ?g2"
        "aristas g3 = insert (a, b) (aristas ?g2)" by blast
  from g3(2) k2 have "b \<in> claves g3" by simp
  from conectar_efecto [OF this, of a] obtain g4 where
    g4: "conectar g3 b a = Inr g4" "claves g4 = claves g3"
        "aristas g4 = insert (b, a) (aristas g3)" by blast
  from g3 g4 have "agregar_arista g a b = Inr g4" by (simp add: agregar_arista_def)
  moreover from g3 g4 k2 a2 have "claves g4 = claves g \<union> {a, b}"
    and "aristas g4 = aristas g \<union> {(a, b), (b, a)}" by auto
  ultimately show ?thesis by blast
qed

lemma takeWhile_append_no: "\<forall>y \<in> set ys. \<not> P y \<Longrightarrow> takeWhile P (xs @ ys) = takeWhile P xs"
  by (induction xs) (auto simp: takeWhile_eq_Nil_iff)

lemma dropWhile_append_no:
  "\<forall>y \<in> set ys. \<not> P y \<Longrightarrow> dropWhile P (xs @ ys) = dropWhile P xs @ ys"
proof (induction xs)
  case Nil
  then show ?case by (cases ys) auto
next
  case (Cons x xs)
  then show ?case by simp
qed

lemma findall_w_sin_palabra: "\<forall>c \<in> set s. \<not> es_palabra c \<Longrightarrow> findall_w s = []"
  by (induction s) auto

lemma findall_w_prefijo: "\<forall>c \<in> set s. \<not> es_palabra c \<Longrightarrow> findall_w (s @ r) = findall_w r"
  by (induction s) auto

lemma findall_w_sufijo:
  "\<forall>c \<in> set ys. \<not> es_palabra c \<Longrightarrow> findall_w (xs @ ys) = findall_w xs"
proof (induction xs rule: findall_w.induct)
  case 1
  then show ?case by (simp add: findall_w_sin_palabra)
next
  case (2 c cs)
  show ?case
  proof (cases "es_palabra c")
    case True
    with 2 show ?thesis
      by (simp add: takeWhile_append_no dropWhile_append_no)
  next
    case False
    with 2 show ?thesis by simp
  qed
qed

lemma findall_w_strip: "findall_w (strip l) = findall_w l"
proof -
  define m where "m = dropWhile es_espacio l"
  have "l = takeWhile es_espacio l @ m" by (simp add: m_def)
  moreover have "\<forall>c \<in> set (takeWhile es_espacio l). \<not> es_palabra c"
    by (auto dest: set_takeWhileD espacio_no_palabra)
  ultimately have 1: "findall_w l = findall_w m" by (metis findall_w_prefijo)
  have "rev m = takeWhile es_espacio (rev m) @ dropWhile es_espacio (rev m)" by simp
  then have "m = rev (dropWhile es_espacio (rev m)) @ rev (takeWhile es_espacio (rev m))"
    by (metis rev_append rev_rev_ident)
  moreover have "\<forall>c \<in> set (rev (takeWhile es_espacio (rev m))). \<not> es_palabra c"
    by (auto dest: set_takeWhileD espacio_no_palabra)
  ultimately have "findall_w m = findall_w (rev (dropWhile es_espacio (rev m)))"
    by (metis findall_w_sufijo)
  with 1 show ?thesis by (simp add: strip_def m_def)
qed

lemma procesar_linea_dos:
  assumes "findall_w l = [a, b]"
  shows "\<exists>g'. procesar_linea g l = Inr g' \<and> claves g' = claves g \<union> {a, b}
        \<and> aristas g' = aristas g \<union> {(a, b), (b, a)}"
  using agregar_arista_efecto [of g a b] assms
  by (simp add: procesar_linea_def findall_w_strip)

lemma procesar_linea_otro:
  assumes "length (findall_w l) \<noteq> 2"
  shows "procesar_linea g l = Inr g"
  using assms by (simp add: procesar_linea_def findall_w_strip)

lemma length_dos: "length xs = 2 \<longleftrightarrow> (\<exists>a b. xs = [a, b])"
  by (cases xs; cases "tl xs") (auto simp: numeral_2_eq_2)

lemma bucle_lineas_efecto:
  "\<exists>g'. bucle_lineas g ls = Inr g' \<and> claves g' = claves g \<union> nodos_de_lineas ls
        \<and> aristas g' = aristas g \<union> aristas_de_lineas ls"
proof (induction ls arbitrary: g)
  case Nil
  show ?case by (simp add: nodos_de_lineas_def aristas_de_lineas_def)
next
  case (Cons l ls)
  have n: "nodos_de_lineas (l # ls) = nodos_de_lineas [l] \<union> nodos_de_lineas ls"
    by (auto simp: nodos_de_lineas_def)
  have e: "aristas_de_lineas (l # ls) = aristas_de_lineas [l] \<union> aristas_de_lineas ls"
    by (auto simp: aristas_de_lineas_def)
  have "\<exists>g1. procesar_linea g l = Inr g1 \<and> claves g1 = claves g \<union> nodos_de_lineas [l]
        \<and> aristas g1 = aristas g \<union> aristas_de_lineas [l]"
  proof (cases "length (findall_w l) = 2")
    case True
    then obtain a b where ab: "findall_w l = [a, b]" by (auto simp: length_dos)
    then have "nodos_de_lineas [l] = {a, b}" and "aristas_de_lineas [l] = {(a, b), (b, a)}"
      by (auto simp: nodos_de_lineas_def aristas_de_lineas_def)
    with procesar_linea_dos [OF ab, of g] show ?thesis by simp
  next
    case False
    then have "nodos_de_lineas [l] = {}" and "aristas_de_lineas [l] = {}"
      by (auto simp: nodos_de_lineas_def aristas_de_lineas_def)
    with procesar_linea_otro [OF False, of g] show ?thesis by simp
  qed
  then obtain g1 where g1: "procesar_linea g l = Inr g1"
    "claves g1 = claves g \<union> nodos_de_lineas [l]"
    "aristas g1 = aristas g \<union> aristas_de_lineas [l]" by blast
  from Cons.IH [of g1] obtain g' where g': "bucle_lineas g1 ls = Inr g'"
    "claves g' = claves g1 \<union> nodos_de_lineas ls"
    "aristas g' = aristas g1 \<union> aristas_de_lineas ls" by blast
  from g1 g' have "bucle_lineas g (l # ls) = Inr g'" by simp
  moreover from g1 g' n e have "claves g' = claves g \<union> nodos_de_lineas (l # ls)"
    and "aristas g' = aristas g \<union> aristas_de_lineas (l # ls)" by auto
  ultimately show ?case by blast
qed

lemma parsear_efecto:
  "\<exists>g. parsear_entrada_a_grafo texto = Inr g
       \<and> claves g = nodos_de_lineas (split_nl (strip texto))
       \<and> aristas g = aristas_de_lineas (split_nl (strip texto))"
  using bucle_lineas_efecto [of "[]" "split_nl (strip texto)"]
  by (simp add: parsear_entrada_a_grafo_def claves_def aristas_def en_grafo_def obtener_def)

lemma findall_w_racha:
  assumes "\<forall>c \<in> set s. \<not> es_palabra c" and "t \<noteq> []" and "\<forall>c \<in> set t. es_palabra c"
    and "r = [] \<or> \<not> es_palabra (hd r)"
  shows "findall_w (s @ t @ r) = t # findall_w r"
proof -
  from assms(2) obtain c cs where t: "t = c # cs" by (cases t) auto
  from assms(4) have tw: "takeWhile es_palabra r = []" and dw: "dropWhile es_palabra r = r"
    by (cases r; simp)+
  from assms(3) t have c: "es_palabra c" and cs: "\<forall>x \<in> set cs. es_palabra x" by auto
  from cs have "takeWhile es_palabra (cs @ r) = cs @ takeWhile es_palabra r"
    and "dropWhile es_palabra (cs @ r) = dropWhile es_palabra r"
    by simp_all
  with tw dw c have "findall_w ((c # cs) @ r) = (c # cs) # findall_w r" by simp
  with findall_w_prefijo [OF assms(1), of "t @ r"] t show ?thesis by simp
qed

lemma rachas_unicas: "rachas_maximales l ts \<Longrightarrow> findall_w l = ts"
  by (induction rule: rachas_maximales.induct)
     (simp_all add: findall_w_sin_palabra findall_w_racha)

lemma rachas_cons_no:
  assumes "rachas_maximales l ts" and "\<not> es_palabra c"
  shows "rachas_maximales (c # l) ts"
  using assms(1)
proof (cases rule: rachas_maximales.cases)
  case sin_mas
  with assms(2) show ?thesis by (simp add: rachas_maximales.sin_mas)
next
  case (racha s t r ts')
  from racha(3) assms(2) have "\<forall>x \<in> set (c # s). \<not> es_palabra x" by simp
  from rachas_maximales.racha [OF this racha(4,5,6,7)] racha(1,2) show ?thesis by simp
qed

lemma rachas_findall_w: "rachas_maximales l (findall_w l)"
proof (induction l rule: findall_w.induct)
  case 1
  show ?case by (simp add: rachas_maximales.sin_mas)
next
  case (2 c cs)
  show ?case
  proof (cases "es_palabra c")
    case True
    let ?t = "takeWhile es_palabra (c # cs)" and ?r = "dropWhile es_palabra cs"
    have "rachas_maximales ([] @ ?t @ ?r) (?t # findall_w ?r)"
    proof (rule rachas_maximales.racha)
      show "\<forall>x \<in> set []. \<not> es_palabra x" by simp
      show "?t \<noteq> []" using True by simp
      show "\<forall>x \<in> set ?t. es_palabra x" by (auto dest: set_takeWhileD)
      show "?r = [] \<or> \<not> es_palabra (hd ?r)" using hd_dropWhile [of es_palabra cs] by blast
      show "rachas_maximales ?r (findall_w ?r)" using "2.IH"(1) [OF True] .
    qed
    with True show ?thesis by simp
  next
    case False
    with "2.IH"(2) [OF False] show ?thesis by (simp add: rachas_cons_no)
  qed
qed

lemma findall_w_tokens:
  "t \<in> set (findall_w l) \<Longrightarrow> t \<noteq> [] \<and> (\<forall>c \<in> set t. es_palabra c)"
proof (induction l rule: findall_w.induct)
  case 1
  then show ?case by simp
next
  case (2 c cs)
  show ?case
  proof (cases "es_palabra c")
    case True
    with "2.prems" have "t = c # takeWhile es_palabra cs
        \<or> t \<in> set (findall_w (dropWhile es_palabra cs))" by simp
    then show ?thesis
    proof
      assume "t = c # takeWhile es_palabra cs"
      with True show ?thesis by (auto dest: set_takeWhileD)
    next
      assume "t \<in> set (findall_w (dropWhile es_palabra cs))"
      then show ?thesis by (rule "2.IH"(1) [OF True])
    qed
  next
    case False
    with "2.prems" have "t \<in> set (findall_w cs)" by simp
    then show ?thesis by (rule "2.IH"(2) [OF False])
  qed
qed

lemma distinct_asegurar:
  "distinct (map fst g) \<Longrightarrow> distinct (map fst (asegurar_clave g k))"
  by (simp add: asegurar_clave_def distinct_update)

lemma distinct_conectar:
  "distinct (map fst g) \<Longrightarrow> conectar g k v = Inr g' \<Longrightarrow> distinct (map fst g')"
  by (auto simp: conectar_def distinct_update split: option.splits if_splits)

lemma distinct_agregar:
  assumes "distinct (map fst g)" and "agregar_arista g a b = Inr g'"
  shows "distinct (map fst g')"
proof -
  from assms(2) obtain g3 where
    g3: "conectar (asegurar_clave (asegurar_clave g a) b) a b = Inr g3"
    and g4: "conectar g3 b a = Inr g'"
    by (cases "conectar (asegurar_clave (asegurar_clave g a) b) a b")
       (simp_all add: agregar_arista_def)
  from assms(1) have "distinct (map fst (asegurar_clave (asegurar_clave g a) b))"
    by (intro distinct_asegurar)
  from distinct_conectar [OF this g3] have "distinct (map fst g3)" .
  from distinct_conectar [OF this g4] show ?thesis .
qed

lemma distinct_procesar:
  assumes "distinct (map fst g)" and "procesar_linea g l = Inr g'"
  shows "distinct (map fst g')"
proof (cases "length (findall_w (strip l)) = 2")
  case True
  with assms(2) have "agregar_arista g (findall_w (strip l) ! 0) (findall_w (strip l) ! 1) = Inr g'"
    by (simp add: procesar_linea_def Let_def)
  from distinct_agregar [OF assms(1) this] show ?thesis .
next
  case False
  with assms show ?thesis by (simp add: procesar_linea_def Let_def)
qed

lemma distinct_bucle:
  "distinct (map fst g) \<Longrightarrow> bucle_lineas g ls = Inr g' \<Longrightarrow> distinct (map fst g')"
proof (induction ls arbitrary: g)
  case Nil
  then show ?case by simp
next
  case (Cons l ls)
  from Cons.prems(2) obtain g1 where g1: "procesar_linea g l = Inr g1"
    and r: "bucle_lineas g1 ls = Inr g'"
    by (cases "procesar_linea g l") simp_all
  from distinct_procesar [OF Cons.prems(1) g1] have "distinct (map fst g1)" .
  from Cons.IH [OF this r] show ?case .
qed

lemma distinct_parsear:
  "parsear_entrada_a_grafo texto = Inr g \<Longrightarrow> distinct (map fst g)"
  using distinct_bucle [of "[]"] by (simp add: parsear_entrada_a_grafo_def)

lemma aristas_de_lineas_sim:
  "(a, b) \<in> aristas_de_lineas ls \<Longrightarrow> (b, a) \<in> aristas_de_lineas ls"
  by (auto simp: aristas_de_lineas_def)

lemma aristas_de_lineas_nodos:
  "(a, b) \<in> aristas_de_lineas ls \<Longrightarrow> a \<in> nodos_de_lineas ls \<and> b \<in> nodos_de_lineas ls"
  by (auto simp: aristas_de_lineas_def nodos_de_lineas_def)

lemma nl_no_palabra: "\<not> es_palabra (CHR 0x0A)"
  by (simp add: es_palabra_def)

lemma blanco_no_palabra: "\<not> es_palabra (CHR '' '')"
  by (simp add: es_palabra_def)

lemma findall_w_par:
  assumes "es_token u" and "es_token v"
  shows "findall_w (u @ '' '' @ v) = [u, v]"
proof -
  from assms(2) have "findall_w ('' '' @ v @ []) = v # findall_w []"
    by (intro findall_w_racha) (simp_all add: es_token_def blanco_no_palabra)
  moreover from assms(1) have "findall_w ([] @ u @ ('' '' @ v)) = u # findall_w ('' '' @ v)"
    by (intro findall_w_racha) (simp_all add: es_token_def blanco_no_palabra)
  ultimately show ?thesis by simp
qed

lemma split_nl_sin_nl: "CHR 0x0A \<notin> set l \<Longrightarrow> split_nl l = [l]"
  by (induction l) auto

lemma split_nl_linea: "CHR 0x0A \<notin> set l \<Longrightarrow> split_nl (l @ CHR 0x0A # r) = l # split_nl r"
  by (induction l) auto

lemma split_nl_unir:
  "ls \<noteq> [] \<Longrightarrow> \<forall>l \<in> set ls. CHR 0x0A \<notin> set l \<Longrightarrow> split_nl (unir_lineas ls) = ls"
proof (induction ls rule: unir_lineas.induct)
  case 1
  then show ?case by simp
next
  case (2 l)
  then show ?case by (simp add: split_nl_sin_nl)
next
  case (3 l l' ls)
  then show ?case by (simp add: split_nl_linea)
qed

lemma strip_id:
  assumes "s = [] \<or> (\<not> es_espacio (hd s) \<and> \<not> es_espacio (last s))"
  shows "strip s = s"
proof (cases "s = []")
  case True
  then show ?thesis by (simp add: strip_def)
next
  case False
  with assms have h: "\<not> es_espacio (hd s)" and l: "\<not> es_espacio (last s)" by auto
  from False h have 1: "dropWhile es_espacio s = s" by (cases s) auto
  from False l have "dropWhile es_espacio (rev s) = rev s"
    by (cases "rev s") (auto simp: last_rev [symmetric] simp del: last_rev)
  with 1 show ?thesis by (simp add: strip_def)
qed

lemma hd_unir: "ls \<noteq> [] \<Longrightarrow> \<forall>l \<in> set ls. l \<noteq> [] \<Longrightarrow> hd (unir_lineas ls) = hd (hd ls)"
  by (induction ls rule: unir_lineas.induct) auto

lemma unir_no_vacio: "ls \<noteq> [] \<Longrightarrow> \<forall>l \<in> set ls. l \<noteq> [] \<Longrightarrow> unir_lineas ls \<noteq> []"
  by (induction ls rule: unir_lineas.induct) auto

lemma last_unir: "ls \<noteq> [] \<Longrightarrow> \<forall>l \<in> set ls. l \<noteq> [] \<Longrightarrow> last (unir_lineas ls) = last (last ls)"
  by (induction ls rule: unir_lineas.induct) (auto simp: unir_no_vacio)

lemma set_lineas_de_grafo:
  assumes "distinct (map fst g)"
  shows "set (lineas_de_grafo g) = {u @ '' '' @ v | u v. (u, v) \<in> aristas g}"
proof -
  have "(u, v) \<in> aristas g \<longleftrightarrow> (\<exists>vs. (u, vs) \<in> set g \<and> v \<in> set vs)" for u v
    using assms by (auto simp: en_aristas obtener_def split: option.splits
        dest: map_of_SomeD)
  then show ?thesis by (fastforce simp: lineas_de_grafo_def)
qed

lemma lineas_renderizadas:
  assumes d: "distinct (map fst g)"
    and t: "\<forall>u v. (u, v) \<in> aristas g \<longrightarrow> es_token u \<and> es_token v"
  shows "aristas_de_lineas (split_nl (strip (renderizar g))) = aristas g \<union> (aristas g)\<inverse>"
    and "nodos_de_lineas (split_nl (strip (renderizar g))) = Domain (aristas g) \<union> Range (aristas g)"
proof -
  define ls where "ls = lineas_de_grafo g"
  have ls: "set ls = {u @ '' '' @ v | u v. (u, v) \<in> aristas g}"
    unfolding ls_def by (rule set_lineas_de_grafo [OF d])
  have forma: "\<exists>u v. l = u @ '' '' @ v \<and> (u, v) \<in> aristas g \<and> es_token u \<and> es_token v
                \<and> findall_w l = [u, v]"
    if "l \<in> set ls" for l
  proof -
    from that ls obtain u v where "l = u @ '' '' @ v" "(u, v) \<in> aristas g" by auto
    with t findall_w_par [of u v] show ?thesis by auto
  qed
  have a: "aristas_de_lineas ls = aristas g \<union> (aristas g)\<inverse>"
  proof -
    have "(a, b) \<in> aristas_de_lineas ls \<longleftrightarrow> (a, b) \<in> aristas g \<union> (aristas g)\<inverse>" for a b
    proof
      assume "(a, b) \<in> aristas_de_lineas ls"
      then obtain l where "l \<in> set ls" "findall_w l = [a, b] \<or> findall_w l = [b, a]"
        by (auto simp: aristas_de_lineas_def)
      with forma [of l] show "(a, b) \<in> aristas g \<union> (aristas g)\<inverse>" by auto
    next
      assume "(a, b) \<in> aristas g \<union> (aristas g)\<inverse>"
      then consider "(a, b) \<in> aristas g" | "(b, a) \<in> aristas g" by auto
      then show "(a, b) \<in> aristas_de_lineas ls"
      proof cases
        case 1
        with ls have "a @ '' '' @ b \<in> set ls" by blast
        moreover from 1 t have "findall_w (a @ '' '' @ b) = [a, b]"
          by (intro findall_w_par) auto
        ultimately show ?thesis unfolding aristas_de_lineas_def by blast
      next
        case 2
        with ls have "b @ '' '' @ a \<in> set ls" by blast
        moreover from 2 t have "findall_w (b @ '' '' @ a) = [b, a]"
          by (intro findall_w_par) auto
        ultimately show ?thesis unfolding aristas_de_lineas_def by blast
      qed
    qed
    then show ?thesis by auto
  qed
  have n: "nodos_de_lineas ls = Domain (aristas_de_lineas ls)"
    by (auto simp: nodos_de_lineas_def aristas_de_lineas_def Domain_iff)
  have eq: "aristas_de_lineas (split_nl (strip (renderizar g))) = aristas_de_lineas ls
            \<and> nodos_de_lineas (split_nl (strip (renderizar g))) = nodos_de_lineas ls"
  proof (cases "ls = []")
    case True
    then show ?thesis
      by (simp add: renderizar_def ls_def [symmetric] strip_def
          aristas_de_lineas_def nodos_de_lineas_def)
  next
    case False
    have ne: "\<forall>l \<in> set ls. l \<noteq> []" using forma by fastforce
    have nl: "\<forall>l \<in> set ls. CHR 0x0A \<notin> set l"
    proof
      fix l assume "l \<in> set ls"
      from forma [OF this] obtain u v where "l = u @ '' '' @ v" "es_token u" "es_token v"
        by blast
      then show "CHR 0x0A \<notin> set l" using nl_no_palabra by (auto simp: es_token_def)
    qed
    from False have "hd ls \<in> set ls" and "last ls \<in> set ls" by simp_all
    from forma [OF this(1)] have "es_palabra (hd (hd ls))"
      by (auto simp: es_token_def)
    moreover from forma [OF \<open>last ls \<in> set ls\<close>] have "es_palabra (last (last ls))"
      by (auto simp: es_token_def)
    ultimately have "\<not> es_espacio (hd (unir_lineas ls))" "\<not> es_espacio (last (unir_lineas ls))"
      using espacio_no_palabra by (auto simp: hd_unir [OF False ne] last_unir [OF False ne])
    then have "strip (unir_lineas ls) = unir_lineas ls" by (intro strip_id) simp
    with split_nl_unir [OF False nl] show ?thesis by (simp add: renderizar_def ls_def)
  qed
  from eq a show "aristas_de_lineas (split_nl (strip (renderizar g))) = aristas g \<union> (aristas g)\<inverse>"
    by simp
  from eq n a show "nodos_de_lineas (split_nl (strip (renderizar g)))
      = Domain (aristas g) \<union> Range (aristas g)" by auto
qed

lemma nodos_tokens:
  "(a, b) \<in> aristas_de_lineas ls \<Longrightarrow> es_token a \<and> es_token b"
proof -
  assume "(a, b) \<in> aristas_de_lineas ls"
  then obtain l where "findall_w l = [a, b] \<or> findall_w l = [b, a]"
    by (auto simp: aristas_de_lineas_def)
  then have "a \<in> set (findall_w l)" "b \<in> set (findall_w l)" by auto
  then show ?thesis using findall_w_tokens unfolding es_token_def by blast
qed

section \<open>Evaluation of the scenario\<close>

lemma distancia_de_minimo:
  assumes "camino_entre g s t p" and "\<forall>r. camino_entre g s t r \<longrightarrow> length p \<le> length r"
  shows "length p = Suc (distancia g s t)"
proof -
  from assms(1) have "p \<noteq> []" by (auto simp: camino_entre_def)
  then obtain k where k: "length p = Suc k" by (cases p) auto
  have "distancia g s t = k"
    unfolding distancia_def
  proof (rule Least_equality)
    show "\<exists>r. camino_entre g s t r \<and> length r = Suc k" using assms(1) k by blast
  next
    fix j assume "\<exists>r. camino_entre g s t r \<and> length r = Suc j"
    then obtain r where "camino_entre g s t r" "length r = Suc j" by blast
    with assms(2) k show "k \<le> j" by fastforce
  qed
  with k show ?thesis by simp
qed

lemma bfs_exito_minimo:
  assumes "en_grafo s g" and "en_grafo t g"
    and "bfs_grados_de_separacion g s t = (Some p, None)"
  shows "camino_entre g s t p"
    and "\<forall>r. camino_entre g s t r \<longrightarrow> length p \<le> length r"
    and "length p = Suc (distancia g s t)"
proof -
  from assms have "bfs_bucle g t [(s, [s])] {s} = (Some p, None)"
    by (simp add: bfs_desde_inicio)
  with bfs_inicial_correcto [of g t s]
  show 1: "camino_entre g s t p"
    and 2: "\<forall>r. camino_entre g s t r \<longrightarrow> length p \<le> length r" by auto
  from distancia_de_minimo [OF 1 2] show "length p = Suc (distancia g s t)" .
qed

lemmas defs_del_parser = parsear_entrada_a_grafo_def strip_def es_espacio_def es_palabra_def
  procesar_linea_def agregar_arista_def asegurar_clave_def conectar_def en_grafo_def

lemma parsear_default: "parsear_entrada_a_grafo DEFAULT_CONNECTIONS = Inr g_escenario"
  by (simp add: DEFAULT_CONNECTIONS_def g_escenario_def defs_del_parser)

lemma parsear_escenario: "parsear_entrada_a_grafo texto_escenario = Inr g_escenario"
  by (simp add: texto_escenario_def g_escenario_def defs_del_parser)

lemma bfs_escenario:
  "bfs_grados_de_separacion g_escenario ''A'' ''F''
   = (Some [''A'', ''B'', ''C'', ''D'', ''E'', ''F''], None)"
  by (simp add: bfs_grados_de_separacion_def en_grafo_def obtener_def g_escenario_def)

section \<open>Properties of the path finder\<close>

text \<open>
  Claim C1. For every graph and every source and target that are keys of the graph with
  the target reachable from the source, \<^const>\<open>bfs_grados_de_separacion\<close> returns a walk
  from the source to the target with no message; no walk between them is shorter, and
  its number of edges (its length less one) is the distance from source to target.
\<close>

theorem bfs_camino_mas_corto:
  assumes "en_grafo s g" and "en_grafo t g" and "camino_entre g s t r0"
  shows "\<exists>p. bfs_grados_de_separacion g s t = (Some p, None)
            \<and> camino_entre g s t p
            \<and> (\<forall>r. camino_entre g s t r \<longrightarrow> length p \<le> length r)
            \<and> length p = Suc (distancia g s t)"
proof -
  from bfs_inicial_correcto [of g t s] assms(3)
  obtain p where p: "bfs_bucle g t [(s, [s])] {s} = (Some p, None)"
    "camino_entre g s t p" "\<forall>r. camino_entre g s t r \<longrightarrow> length p \<le> length r"
    by blast
  from p(2) have "p \<noteq> []" by (auto simp: camino_entre_def)
  then obtain k where k: "length p = Suc k" by (cases p) auto
  have "distancia g s t = k"
    unfolding distancia_def
  proof (rule Least_equality)
    show "\<exists>r. camino_entre g s t r \<and> length r = Suc k" using p(2) k by blast
  next
    fix j assume "\<exists>r. camino_entre g s t r \<and> length r = Suc j"
    then obtain r where "camino_entre g s t r" "length r = Suc j" by blast
    with p(3) k show "k \<le> j" by fastforce
  qed
  with p k bfs_desde_inicio [OF assms(1,2)] show ?thesis by simp
qed

theorem bfs_camino_mas_corto_witness:
  "en_grafo ''A'' g_ej \<and> en_grafo ''D'' g_ej
   \<and> camino_entre g_ej ''A'' ''D'' [''A'', ''C'', ''D'']
   \<and> bfs_grados_de_separacion g_ej ''A'' ''D'' = (Some [''A'', ''B'', ''D''], None)
   \<and> distancia g_ej ''A'' ''D'' = 2
   \<and> \<not> (\<exists>r. camino_entre g_ej ''A'' ''D'' r \<and> length r < 3)"
proof -
  have h1: "en_grafo ''A'' g_ej" and h2: "en_grafo ''D'' g_ej"
    by (simp_all add: en_grafo_def g_ej_def)
  have h3: "camino_entre g_ej ''A'' ''D'' [''A'', ''C'', ''D'']"
    by (simp add: camino_entre_def obtener_def g_ej_def)
  have e: "bfs_grados_de_separacion g_ej ''A'' ''D'' = (Some [''A'', ''B'', ''D''], None)"
    by (simp add: bfs_grados_de_separacion_def en_grafo_def obtener_def g_ej_def)
  from bfs_camino_mas_corto [OF h1 h2 h3] obtain p where
    p: "bfs_grados_de_separacion g_ej ''A'' ''D'' = (Some p, None)"
    and m: "\<forall>r. camino_entre g_ej ''A'' ''D'' r \<longrightarrow> length p \<le> length r"
    and d: "length p = Suc (distancia g_ej ''A'' ''D'')"
    by blast
  from p e have "p = [''A'', ''B'', ''D'']" by simp
  then have l: "length p = 3" by simp
  from d l have "distancia g_ej ''A'' ''D'' = 2" by simp
  moreover from m l have "\<not> (\<exists>r. camino_entre g_ej ''A'' ''D'' r \<and> length r < 3)"
    by (simp add: not_less)
  ultimately show ?thesis using h1 h2 h3 e by blast
qed

text \<open>
  Claim C3. For every graph and every node \<open>a\<close> that is a key of it, the search from
  \<open>a\<close> to \<open>a\<close> returns the one-element path \<open>[a]\<close> and no message: the comparison
  with the target is made on the first element taken from the queue.
\<close>

theorem bfs_mismo_nodo:
  "en_grafo a g \<Longrightarrow> bfs_grados_de_separacion g a a = (Some [a], None)"
  by (simp add: bfs_grados_de_separacion_def)

theorem bfs_mismo_nodo_witness:
  "en_grafo ''A'' g_ej \<and> bfs_grados_de_separacion g_ej ''A'' ''A'' = (Some [''A''], None)"
proof -
  have h: "en_grafo ''A'' g_ej" by (simp add: en_grafo_def g_ej_def)
  from bfs_mismo_nodo [OF h] h show ?thesis by simp
qed

text \<open>
  Claim C4. If the source or the target is not a key of the graph, the function returns
  no path and the message that a node does not exist, whatever the graph holds;
  when both are keys it returns the result of the search loop, which is never that
  message.
\<close>

theorem bfs_nodo_inexistente:
  "(\<not> en_grafo s g \<or> \<not> en_grafo t g \<longrightarrow>
      bfs_grados_de_separacion g s t = (None, Some msg_nodo_inexistente))
   \<and> (en_grafo s g \<and> en_grafo t g \<longrightarrow>
      bfs_grados_de_separacion g s t = bfs_bucle g t [(s, [s])] {s}
      \<and> bfs_grados_de_separacion g s t \<noteq> (None, Some msg_nodo_inexistente))"
proof -
  have "bfs_bucle g t [(s, [s])] {s} \<noteq> (None, Some msg_nodo_inexistente)"
    using bfs_bucle_forma [of "[(s, [s])]" g t "{s}"] mensajes_distintos by auto
  then show ?thesis by (auto simp: bfs_grados_de_separacion_def)
qed

theorem bfs_nodo_inexistente_witness:
  "\<not> en_grafo ''Z'' g_ej
   \<and> bfs_grados_de_separacion g_ej ''Z'' ''A'' = (None, Some msg_nodo_inexistente)
   \<and> bfs_grados_de_separacion g_ej ''A'' ''Z'' = (None, Some msg_nodo_inexistente)
   \<and> en_grafo ''A'' g_ej \<and> en_grafo ''X'' g_ej
   \<and> bfs_grados_de_separacion g_ej ''A'' ''X'' \<noteq> (None, Some msg_nodo_inexistente)"
proof -
  have h1: "\<not> en_grafo ''Z'' g_ej" and h2: "en_grafo ''A'' g_ej" and h3: "en_grafo ''X'' g_ej"
    by (simp_all add: en_grafo_def g_ej_def)
  from bfs_nodo_inexistente [of "''Z''" g_ej "''A''"] h1
  have a: "bfs_grados_de_separacion g_ej ''Z'' ''A'' = (None, Some msg_nodo_inexistente)"
    by blast
  from bfs_nodo_inexistente [of "''A''" g_ej "''Z''"] h1
  have b: "bfs_grados_de_separacion g_ej ''A'' ''Z'' = (None, Some msg_nodo_inexistente)"
    by blast
  from bfs_nodo_inexistente [of "''A''" g_ej "''X''"] h2 h3
  have c: "bfs_grados_de_separacion g_ej ''A'' ''X'' \<noteq> (None, Some msg_nodo_inexistente)"
    by blast
  from h1 h2 h3 a b c show ?thesis by blast
qed

text \<open>
  Claim C5. When source and target are both keys of the graph, the function returns no
  path and the message that there is no connection exactly when no walk leads from the
  source to the target.
\<close>

theorem bfs_sin_conexion:
  assumes "en_grafo s g" and "en_grafo t g"
  shows "bfs_grados_de_separacion g s t = (None, Some msg_sin_conexion)
         \<longleftrightarrow> \<not> (\<exists>r. camino_entre g s t r)"
proof -
  have "bfs_bucle g t [(s, [s])] {s} = (None, Some msg_sin_conexion)
        \<longleftrightarrow> \<not> (\<exists>r. camino_entre g s t r)"
    using bfs_inicial_correcto [of g t s] by auto
  then show ?thesis by (simp only: bfs_desde_inicio [OF assms])
qed

theorem bfs_sin_conexion_witness:
  "en_grafo ''A'' g_ej \<and> en_grafo ''X'' g_ej
   \<and> bfs_grados_de_separacion g_ej ''A'' ''X'' = (None, Some msg_sin_conexion)
   \<and> \<not> (\<exists>r. camino_entre g_ej ''A'' ''X'' r)"
proof -
  have h1: "en_grafo ''A'' g_ej" and h2: "en_grafo ''X'' g_ej"
    by (simp_all add: en_grafo_def g_ej_def)
  have e: "bfs_grados_de_separacion g_ej ''A'' ''X'' = (None, Some msg_sin_conexion)"
    by (simp add: bfs_grados_de_separacion_def en_grafo_def obtener_def g_ej_def)
  with bfs_sin_conexion [OF h1 h2] h1 h2 show ?thesis by simp
qed

text \<open>
  Claim C6. For every graph, source and target, the pair that the function returns is
  either a non-empty path with no message, or no path with a message: exactly one of
  the two components is \<open>None\<close>. The function is total, so nothing else can come back.
\<close>

theorem bfs_un_solo_canal:
  "(\<exists>p. p \<noteq> [] \<and> bfs_grados_de_separacion g s t = (Some p, None))
   \<or> (\<exists>m. bfs_grados_de_separacion g s t = (None, Some m))"
  using bfs_bucle_forma [of "[(s, [s])]" g t "{s}"]
  by (auto simp: bfs_grados_de_separacion_def)

theorem bfs_un_solo_canal_witness:
  "bfs_grados_de_separacion g_ej ''A'' ''D'' = (Some [''A'', ''B'', ''D''], None)
   \<and> bfs_grados_de_separacion g_ej ''A'' ''X'' = (None, Some msg_sin_conexion)
   \<and> bfs_grados_de_separacion g_ej ''A'' ''Z'' = (None, Some msg_nodo_inexistente)"
proof -
  have a: "bfs_grados_de_separacion g_ej ''A'' ''D'' = (Some [''A'', ''B'', ''D''], None)"
    using bfs_un_solo_canal [of g_ej "''A''" "''D''"]
    by (simp add: bfs_grados_de_separacion_def en_grafo_def obtener_def g_ej_def)
  have b: "bfs_grados_de_separacion g_ej ''A'' ''X'' = (None, Some msg_sin_conexion)"
    using bfs_un_solo_canal [of g_ej "''A''" "''X''"]
    by (simp add: bfs_grados_de_separacion_def en_grafo_def obtener_def g_ej_def)
  have c: "bfs_grados_de_separacion g_ej ''A'' ''Z'' = (None, Some msg_nodo_inexistente)"
    using bfs_un_solo_canal [of g_ej "''A''" "''Z''"]
    by (simp add: bfs_grados_de_separacion_def en_grafo_def obtener_def g_ej_def)
  from a b c show ?thesis by blast
qed

text \<open>
  Claim C10. The search is total over every adjacency mapping, also one in which a
  neighbour list mentions a node that is not a key: the neighbours of such a node are
  read as the empty list, so taking it from the queue only removes it, and the function
  returns a path or a message.
\<close>

theorem bfs_total_con_vecinos_sin_clave:
  "(\<not> en_grafo n g \<longrightarrow>
       obtener g n = []
     \<and> (n \<noteq> t \<longrightarrow> bfs_bucle g t ((n, p) # q) vis = bfs_bucle g t q vis))
   \<and> ((\<exists>c. bfs_grados_de_separacion g s t = (Some c, None))
      \<or> (\<exists>m. bfs_grados_de_separacion g s t = (None, Some m)))"
proof -
  have "obtener g n = []" if "\<not> en_grafo n g"
    using that by (simp add: en_grafo_def obtener_def)
  moreover have "(\<exists>c. bfs_grados_de_separacion g s t = (Some c, None))
      \<or> (\<exists>m. bfs_grados_de_separacion g s t = (None, Some m))"
    using bfs_bucle_forma [of "[(s, [s])]" g t "{s}"]
    by (auto simp: bfs_grados_de_separacion_def)
  ultimately show ?thesis by simp
qed

theorem bfs_total_con_vecinos_sin_clave_witness:
  "\<not> en_grafo ''Z'' g_colgante
   \<and> ''Z'' \<in> set (obtener g_colgante ''A'')
   \<and> obtener g_colgante ''Z'' = []
   \<and> bfs_bucle g_colgante ''B'' [(''Z'', [''A'', ''Z''])] {''A'', ''Z''}
       = bfs_bucle g_colgante ''B'' [] {''A'', ''Z''}
   \<and> bfs_grados_de_separacion g_colgante ''A'' ''B'' = (None, Some msg_sin_conexion)"
proof -
  have h: "\<not> en_grafo ''Z'' g_colgante" by (simp add: en_grafo_def g_colgante_def)
  have m: "''Z'' \<in> set (obtener g_colgante ''A'')" by (simp add: obtener_def g_colgante_def)
  have nb: "''Z'' \<noteq> ''B''" by simp
  from bfs_total_con_vecinos_sin_clave
         [of "''Z''" g_colgante "''B''" "[''A'', ''Z'']" "[]" "{''A'', ''Z''}"] h nb
  have a: "obtener g_colgante ''Z'' = []"
    and b: "bfs_bucle g_colgante ''B'' [(''Z'', [''A'', ''Z''])] {''A'', ''Z''}
            = bfs_bucle g_colgante ''B'' [] {''A'', ''Z''}"
    by blast+
  have e: "bfs_grados_de_separacion g_colgante ''A'' ''B'' = (None, Some msg_sin_conexion)"
    by (simp add: bfs_grados_de_separacion_def en_grafo_def obtener_def g_colgante_def)
  from h m a b e show ?thesis by blast
qed

section \<open>The scenario of the default text\<close>

text \<open>
  Claim C2, as stated, fails. On the graph built from the eleven lines of the default
  text the search from \<open>A\<close> to \<open>F\<close> returns the path \<open>A, B, C, D, E, F\<close>: six nodes,
  hence five edges and not six.
\<close>

theorem escenario_seis_aristas_counterexample:
  "parsear_entrada_a_grafo DEFAULT_CONNECTIONS = Inr g_escenario
   \<and> parsear_entrada_a_grafo texto_escenario = Inr g_escenario
   \<and> bfs_grados_de_separacion g_escenario ''A'' ''F''
       = (Some [''A'', ''B'', ''C'', ''D'', ''E'', ''F''], None)
   \<and> length [''A'', ''B'', ''C'', ''D'', ''E'', ''F''] - 1 \<noteq> (6 :: nat)"
  using parsear_default parsear_escenario bfs_escenario by simp

text \<open>
  Claim C2, amended. On the graph built from the eleven lines of the default text (with
  or without the line feeds around them) the search from \<open>A\<close> to \<open>F\<close> returns the path
  \<open>A, B, C, D, E, F\<close>, one of the equal-shortest routes: it has six nodes and five
  edges, and five is the distance from \<open>A\<close> to \<open>F\<close>, that is five degrees of
  separation.
\<close>

theorem escenario_cinco_aristas:
  "parsear_entrada_a_grafo DEFAULT_CONNECTIONS = Inr g_escenario
   \<and> parsear_entrada_a_grafo texto_escenario = Inr g_escenario
   \<and> bfs_grados_de_separacion g_escenario ''A'' ''F''
       = (Some [''A'', ''B'', ''C'', ''D'', ''E'', ''F''], None)
   \<and> length [''A'', ''B'', ''C'', ''D'', ''E'', ''F''] - 1 = (5 :: nat)
   \<and> distancia g_escenario ''A'' ''F'' = 5"
proof -
  have a: "en_grafo ''A'' g_escenario" and f: "en_grafo ''F'' g_escenario"
    by (simp_all add: en_grafo_def g_escenario_def)
  from bfs_exito_minimo(3) [OF a f bfs_escenario]
  have "distancia g_escenario ''A'' ''F'' = 5" by simp
  with parsear_default parsear_escenario bfs_escenario show ?thesis by simp
qed

theorem escenario_cinco_aristas_witness:
  "en_grafo ''A'' g_escenario \<and> en_grafo ''F'' g_escenario
   \<and> camino_entre g_escenario ''A'' ''F'' [''A'', ''G'', ''H'', ''I'', ''J'', ''F'']
   \<and> bfs_grados_de_separacion g_escenario ''A'' ''F''
       = (Some [''A'', ''B'', ''C'', ''D'', ''E'', ''F''], None)
   \<and> distancia g_escenario ''A'' ''F'' = 5"
proof -
  have "en_grafo ''A'' g_escenario" and "en_grafo ''F'' g_escenario"
    by (simp_all add: en_grafo_def g_escenario_def)
  moreover have "camino_entre g_escenario ''A'' ''F'' [''A'', ''G'', ''H'', ''I'', ''J'', ''F'']"
    by (simp add: camino_entre_def obtener_def g_escenario_def)
  ultimately show ?thesis using escenario_cinco_aristas by blast
qed

section \<open>Properties of the graph builder\<close>

text \<open>
  Claim C7. For every input text the builder returns a graph, with unique keys, that is
  symmetric (whenever \<open>b\<close> is in the neighbour list of \<open>a\<close>, \<open>a\<close> is in the neighbour
  list of \<open>b\<close>) and closed (every node in a neighbour list is a key of the graph).
\<close>

theorem grafo_simetrico_y_cerrado:
  "\<exists>g. parsear_entrada_a_grafo texto = Inr g
      \<and> distinct (map fst g)
      \<and> (\<forall>a b. b \<in> set (obtener g a) \<longrightarrow> a \<in> set (obtener g b) \<and> en_grafo b g)"
proof -
  from parsear_efecto [of texto] obtain g where g: "parsear_entrada_a_grafo texto = Inr g"
    "claves g = nodos_de_lineas (split_nl (strip texto))"
    "aristas g = aristas_de_lineas (split_nl (strip texto))" by blast
  have "a \<in> set (obtener g b) \<and> en_grafo b g" if "b \<in> set (obtener g a)" for a b
  proof -
    from that have ab: "(a, b) \<in> aristas_de_lineas (split_nl (strip texto))"
      using g(3) by (simp add: en_aristas [symmetric])
    from aristas_de_lineas_sim [OF ab] g(3) have "a \<in> set (obtener g b)"
      by (simp add: en_aristas [symmetric])
    moreover from aristas_de_lineas_nodos [OF ab] g(2) have "en_grafo b g"
      by (auto simp: claves_def)
    ultimately show ?thesis by simp
  qed
  with g(1) distinct_parsear [OF g(1)] show ?thesis by blast
qed

theorem grafo_simetrico_y_cerrado_witness:
  "parsear_entrada_a_grafo ''A B'' = Inr [(''A'', [''B'']), (''B'', [''A''])]
   \<and> ''B'' \<in> set (obtener [(''A'', [''B'']), (''B'', [''A''])] ''A'')
   \<and> ''A'' \<in> set (obtener [(''A'', [''B'']), (''B'', [''A''])] ''B'')
   \<and> en_grafo ''B'' [(''A'', [''B'']), (''B'', [''A''])]"
proof -
  have p: "parsear_entrada_a_grafo ''A B'' = Inr [(''A'', [''B'']), (''B'', [''A''])]"
    by (simp add: defs_del_parser)
  have m: "''B'' \<in> set (obtener [(''A'', [''B'']), (''B'', [''A''])] ''A'')"
    by (simp add: obtener_def)
  from grafo_simetrico_y_cerrado [of "''A B''"] p m
  have "''A'' \<in> set (obtener [(''A'', [''B'']), (''B'', [''A''])] ''B'')
        \<and> en_grafo ''B'' [(''A'', [''B'']), (''B'', [''A''])]"
    by auto
  with p m show ?thesis by blast
qed

text \<open>
  Claim C8. The tokens of a line are its maximal runs of word characters. A line with
  exactly two tokens \<open>a\<close> and \<open>b\<close> makes both of them keys and adds the edge between them
  in both directions; a line with any other number of tokens leaves the graph as it
  is; neither raises an error. So the builder returns, for every text, a graph whose
  keys and edges are exactly those of the lines with two tokens.
\<close>

theorem linea_aporta_arista_sii_dos_tokens:
  "(\<forall>ts. rachas_maximales linea ts \<longleftrightarrow> ts = findall_w linea)
   \<and> (\<forall>a b. findall_w linea = [a, b] \<longrightarrow>
         (\<exists>g'. procesar_linea g linea = Inr g' \<and> claves g' = claves g \<union> {a, b}
              \<and> aristas g' = aristas g \<union> {(a, b), (b, a)}))
   \<and> (length (findall_w linea) \<noteq> 2 \<longrightarrow> procesar_linea g linea = Inr g)
   \<and> (\<exists>gf. parsear_entrada_a_grafo texto = Inr gf
         \<and> claves gf = nodos_de_lineas (split_nl (strip texto))
         \<and> aristas gf = aristas_de_lineas (split_nl (strip texto)))"
  using rachas_unicas [of linea] rachas_findall_w [of linea]
    procesar_linea_dos [of linea _ _ g] procesar_linea_otro [of linea g]
    parsear_efecto [of texto]
  by blast

theorem linea_aporta_arista_sii_dos_tokens_witness:
  "findall_w ''A-B'' = [''A'', ''B'']
   \<and> rachas_maximales ''A-B'' [''A'', ''B'']
   \<and> procesar_linea [] ''A-B'' = Inr [(''A'', [''B'']), (''B'', [''A''])]
   \<and> aristas [(''A'', [''B'']), (''B'', [''A''])] = {(''A'', ''B''), (''B'', ''A'')}
   \<and> length (findall_w ''A B C'') \<noteq> 2
   \<and> procesar_linea g_ej ''A B C'' = Inr g_ej
   \<and> length (findall_w ''A'') \<noteq> 2
   \<and> procesar_linea g_ej ''A'' = Inr g_ej
   \<and> length (findall_w '''') \<noteq> 2
   \<and> procesar_linea g_ej '''' = Inr g_ej"
proof -
  have t2: "findall_w ''A-B'' = [''A'', ''B'']" by (simp add: es_palabra_def)
  have t3: "length (findall_w ''A B C'') \<noteq> 2" by (simp add: es_palabra_def)
  have t1: "length (findall_w ''A'') \<noteq> 2" by (simp add: es_palabra_def)
  have t0: "length (findall_w '''') \<noteq> 2" by simp
  have e: "procesar_linea [] ''A-B'' = Inr [(''A'', [''B'']), (''B'', [''A''])]"
    by (simp add: defs_del_parser)
  have v: "aristas [] = {}" by (simp add: aristas_def obtener_def)
  from linea_aporta_arista_sii_dos_tokens [of "''A-B''" "[]"] t2 e v
  have r: "rachas_maximales ''A-B'' [''A'', ''B'']"
    and a: "aristas [(''A'', [''B'']), (''B'', [''A''])] = {(''A'', ''B''), (''B'', ''A'')}"
    by auto
  from linea_aporta_arista_sii_dos_tokens [of "''A B C''" g_ej] t3
  have p3: "procesar_linea g_ej ''A B C'' = Inr g_ej" by blast
  from linea_aporta_arista_sii_dos_tokens [of "''A''" g_ej] t1
  have p1: "procesar_linea g_ej ''A'' = Inr g_ej" by blast
  from linea_aporta_arista_sii_dos_tokens [of "''''" g_ej] t0
  have p0: "procesar_linea g_ej '''' = Inr g_ej" by blast
  from t2 r e a t3 p3 t1 p1 t0 p0 show ?thesis by blast
qed

text \<open>
  Claim C9. For every input text, writing the graph that the builder returns as text,
  one edge per line and two tokens per line, and building a graph from that text again
  gives a graph with the same edges, and the same keys, as the first one.
\<close>

theorem parseo_idempotente:
  "\<exists>g g2. parsear_entrada_a_grafo texto = Inr g
         \<and> parsear_entrada_a_grafo (renderizar g) = Inr g2
         \<and> aristas g2 = aristas g \<and> claves g2 = claves g"
proof -
  from parsear_efecto [of texto] obtain g where g: "parsear_entrada_a_grafo texto = Inr g"
    "claves g = nodos_de_lineas (split_nl (strip texto))"
    "aristas g = aristas_de_lineas (split_nl (strip texto))" by blast
  from parsear_efecto [of "renderizar g"] obtain g2 where
    g2: "parsear_entrada_a_grafo (renderizar g) = Inr g2"
    "claves g2 = nodos_de_lineas (split_nl (strip (renderizar g)))"
    "aristas g2 = aristas_de_lineas (split_nl (strip (renderizar g)))" by blast
  have d: "distinct (map fst g)" by (rule distinct_parsear [OF g(1)])
  have t: "\<forall>u v. (u, v) \<in> aristas g \<longrightarrow> es_token u \<and> es_token v"
    using nodos_tokens g(3) by simp
  have sim: "(aristas g)\<inverse> = aristas g"
    using g(3) by (auto dest: aristas_de_lineas_sim)
  have dom: "Domain (aristas g) = claves g"
    unfolding g(2) g(3)
    by (auto simp: nodos_de_lineas_def aristas_de_lineas_def Domain_iff)
  from sim have "Range (aristas g) = Domain (aristas g)" by (metis Domain_converse)
  with lineas_renderizadas [OF d t] sim dom g2
  have "aristas g2 = aristas g" and "claves g2 = claves g" by simp_all
  with g(1) g2(1) show ?thesis by blast
qed

theorem parseo_idempotente_witness:
  "parsear_entrada_a_grafo (''A B'' @ [CHR 0x0A] @ ''C B'' @ [CHR 0x0A] @ ''C A'')
     = Inr [(''A'', [''B'', ''C'']), (''B'', [''A'', ''C'']), (''C'', [''B'', ''A''])]
   \<and> renderizar [(''A'', [''B'', ''C'']), (''B'', [''A'', ''C'']), (''C'', [''B'', ''A''])]
     = ''A B'' @ [CHR 0x0A] @ ''A C'' @ [CHR 0x0A] @ ''B A'' @ [CHR 0x0A] @ ''B C''
       @ [CHR 0x0A] @ ''C B'' @ [CHR 0x0A] @ ''C A''
   \<and> parsear_entrada_a_grafo
       (''A B'' @ [CHR 0x0A] @ ''A C'' @ [CHR 0x0A] @ ''B A'' @ [CHR 0x0A] @ ''B C''
        @ [CHR 0x0A] @ ''C B'' @ [CHR 0x0A] @ ''C A'')
     = Inr [(''A'', [''B'', ''C'']), (''B'', [''A'', ''C'']), (''C'', [''A'', ''B''])]
   \<and> aristas [(''A'', [''B'', ''C'']), (''B'', [''A'', ''C'']), (''C'', [''A'', ''B''])]
     = aristas [(''A'', [''B'', ''C'']), (''B'', [''A'', ''C'']), (''C'', [''B'', ''A''])]"
proof -
  have p1: "parsear_entrada_a_grafo (''A B'' @ [CHR 0x0A] @ ''C B'' @ [CHR 0x0A] @ ''C A'')
     = Inr [(''A'', [''B'', ''C'']), (''B'', [''A'', ''C'']), (''C'', [''B'', ''A''])]"
    by (simp add: defs_del_parser)
  have r: "renderizar [(''A'', [''B'', ''C'']), (''B'', [''A'', ''C'']), (''C'', [''B'', ''A''])]
     = ''A B'' @ [CHR 0x0A] @ ''A C'' @ [CHR 0x0A] @ ''B A'' @ [CHR 0x0A] @ ''B C''
       @ [CHR 0x0A] @ ''C B'' @ [CHR 0x0A] @ ''C A''"
    by (simp add: renderizar_def lineas_de_grafo_def)
  have p2: "parsear_entrada_a_grafo
       (''A B'' @ [CHR 0x0A] @ ''A C'' @ [CHR 0x0A] @ ''B A'' @ [CHR 0x0A] @ ''B C''
        @ [CHR 0x0A] @ ''C B'' @ [CHR 0x0A] @ ''C A'')
     = Inr [(''A'', [''B'', ''C'']), (''B'', [''A'', ''C'']), (''C'', [''A'', ''B''])]"
    by (simp add: defs_del_parser)
  from parseo_idempotente [of "''A B'' @ [CHR 0x0A] @ ''C B'' @ [CHR 0x0A] @ ''C A''"]
  obtain g g2 where "parsear_entrada_a_grafo (''A B'' @ [CHR 0x0A] @ ''C B'' @ [CHR 0x0A] @ ''C A'') = Inr g"
    "parsear_entrada_a_grafo (renderizar g) = Inr g2" "aristas g2 = aristas g"
    by blast
  with p1 r p2 have "aristas [(''A'', [''B'', ''C'']), (''B'', [''A'', ''C'']), (''C'', [''A'', ''B''])]
     = aristas [(''A'', [''B'', ''C'']), (''B'', [''A'', ''C'']), (''C'', [''B'', ''A''])]"
    by simp
  with p1 r p2 show ?thesis by blast
qed

end
